theory Spec2Isabelle
  imports Main "HOL-Library.Sublist"
begin

section \<open>Strings\<close>

text \<open>
  A JavaScript string is a sequence of code units. The model keeps the code units below
  256 (the Latin-1 range), one \<^typ>\<open>char\<close> each; on that range \<open>toLowerCase\<close> works
  code unit by code unit and never changes the length.
\<close>

definition toLowerChar :: "char \<Rightarrow> char" where
  \<comment> \<open>A-Z, and the Latin-1 capitals U+00C0..U+00DE without the multiplication sign U+00D7\<close>
  "toLowerChar c =
     (let n = (of_char c :: nat)
      in if (65 \<le> n \<and> n \<le> 90) \<or> (192 \<le> n \<and> n \<le> 222 \<and> n \<noteq> 215)
         then char_of (n + 32) else c)"

definition toLowerCase :: "string \<Rightarrow> string" where
  "toLowerCase s = map toLowerChar s"

definition isSpace :: "char \<Rightarrow> bool" where
  \<comment> \<open>WhiteSpace and LineTerminator of ECMAScript below 256: TAB LF VT FF CR SP NBSP\<close>
  "isSpace c = ((of_char c :: nat) \<in> {9, 10, 11, 12, 13, 32, 160})"

definition trim :: "string \<Rightarrow> string" where
  "trim s = rev (dropWhile isSpace (rev (dropWhile isSpace s)))"

fun startsWith :: "string \<Rightarrow> string \<Rightarrow> bool" where
  "startsWith s [] = True"
| "startsWith [] (t # ts) = False"
| "startsWith (c # cs) (t # ts) = (c = t \<and> startsWith cs ts)"

fun includes_str :: "string \<Rightarrow> string \<Rightarrow> bool" where
  \<comment> \<open>\<open>s.includes(t)\<close>: \<open>t\<close> occurs in \<open>s\<close> at some position\<close>
  "includes_str [] t = (t = [])"
| "includes_str (c # cs) t = (startsWith (c # cs) t \<or> includes_str cs t)"

fun showNat :: "nat \<Rightarrow> string" where
  \<comment> \<open>a number inside a template literal: its decimal digits\<close>
  "showNat n =
     (if n < 10 then [char_of (48 + n)]
      else showNat (n div 10) @ [char_of (48 + n mod 10)])"

section \<open>Records and the search\<close>

text \<open>
  \<open>Transaction\<close> is an object whose properties are strings; a property that the parser
  did not set is absent (\<open>undefined\<close> in the source, \<open>None\<close> here).
\<close>

type_synonym Transaction = "string \<rightharpoonup> string"

definition emailMatches :: "Transaction \<Rightarrow> string \<Rightarrow> bool" where
  \<comment> \<open>\<open>item => item["E-mail Comprador"]?.toLowerCase().includes(term)\<close>; \<open>undefined\<close> is falsy\<close>
  "emailMatches item term =
     (case item ''E-mail Comprador'' of
        None \<Rightarrow> False
      | Some v \<Rightarrow> includes_str (toLowerCase v) term)"

definition search :: "Transaction list \<Rightarrow> string \<Rightarrow> Transaction list" where
  \<comment> \<open>lines 99-102 and again lines 68-71: normalise the term, then filter\<close>
  "search rows searchTerm =
     (let term = trim (toLowerCase searchTerm)
      in filter (\<lambda>item. emailMatches item term) rows)"

section \<open>The component state\<close>

record app_state =
  data :: "Transaction list"
  searchTerm :: string
  searchResults :: "Transaction list"
  loading :: bool
  error :: "string option"
  hasSearched :: bool
  lastUpdated :: "nat option"

definition initial_state :: app_state where
  "initial_state =
     \<lparr>data = [], searchTerm = [], searchResults = [], loading = True, error = None,
      hasSearched = False, lastUpdated = None\<rparr>"

definition handleSearch :: "app_state \<Rightarrow> app_state" where
  "handleSearch s =
     (if trim (searchTerm s) = [] then s
      else s\<lparr>hasSearched := True, searchResults := search (data s) (searchTerm s)\<rparr>)"

section \<open>One refresh cycle\<close>

text \<open>
  \<open>fetchData\<close> is asynchronous. It runs up to \<open>await fetch(...)\<close> when it is invoked
  (\<open>fetchData_begin\<close>) and resumes when the request settles (\<open>fetchData_resume\<close>). The
  collaborators are inputs of the model: what the request settled with, what the parser
  reports for a text, and the clock. The resumed part reads \<open>searchTerm\<close> from the closure
  of the render in which this \<open>fetchData\<close> was created, so the term is a parameter too.
\<close>

datatype fetch_result =
    Rejected "string option"
      \<comment> \<open>the promise rejects: with an \<open>Error\<close> and its message, or with something else\<close>
  | Response bool nat string string
      \<comment> \<open>\<open>response.ok\<close>, \<open>response.status\<close>, \<open>response.statusText\<close>, the body text\<close>

datatype parse_outcome =
    Complete "Transaction list"   \<comment> \<open>the \<open>complete\<close> callback with \<open>results.data\<close>\<close>
  | ParseError string             \<comment> \<open>the \<open>error\<close> callback with \<open>err.message\<close>\<close>

definition fetchData_begin :: "app_state \<Rightarrow> app_state" where
  "fetchData_begin s = s\<lparr>loading := True, error := None\<rparr>"

definition fetchData_catch :: "string option \<Rightarrow> app_state \<Rightarrow> app_state" where
  "fetchData_catch err s =
     s\<lparr>error := Some (case err of Some message \<Rightarrow> message @ ''.''
                                | None \<Rightarrow> ''An unknown error occurred''),
       loading := False\<rparr>"

definition fetchData_complete :: "string \<Rightarrow> nat \<Rightarrow> Transaction list \<Rightarrow> app_state \<Rightarrow> app_state" where
  "fetchData_complete term0 now results s =
     (let s1 = s\<lparr>data := results, lastUpdated := Some now, loading := False\<rparr>
      in if trim term0 \<noteq> [] then s1\<lparr>searchResults := search results term0\<rparr> else s1)"

definition fetchData_resume ::
  "(string \<Rightarrow> parse_outcome) \<Rightarrow> nat \<Rightarrow> string \<Rightarrow> fetch_result \<Rightarrow> app_state \<Rightarrow> app_state" where
  "fetchData_resume parse now term0 fr s =
     (case fr of
        Rejected err \<Rightarrow> fetchData_catch err s
      | Response ok status statusText csv \<Rightarrow>
          if \<not> ok
          then fetchData_catch
                 (Some (''Failed to fetch CSV file: '' @ showNat status @ '' '' @ statusText)) s
          else (case parse csv of
                  Complete results \<Rightarrow> fetchData_complete term0 now results s
                | ParseError message \<Rightarrow>
                    s\<lparr>error := Some (''CSV Parsing Error: '' @ message), loading := False\<rparr>))"

section \<open>The component as a transition system\<close>

text \<open>
  Besides the React state the system holds the refresh cycles that are waiting for their
  request, each with the search term its closure captured. An event is a handler of the
  page being called, or the oldest waiting request settling. The handlers are the ones
  the source attaches: \<open>onClick={fetchData}\<close>, \<open>onChange\<close> with \<open>setSearchTerm\<close>,
  \<open>onSubmit={handleSearch}\<close>. Neither \<open>fetchData\<close> nor \<open>handleSearch\<close> reads
  \<open>loading\<close>. The \<open>disabled\<close> attributes of the two buttons belong to the last
  committed render, which follows \<open>setLoading\<close> only after the handler has returned,
  so a click can reach its handler while \<open>loading\<close> is already true in the state; the
  transitions therefore carry exactly the checks the handlers make.
\<close>

record system =
  ui :: app_state
  pending :: "string list"

datatype event =
    Refresh                  \<comment> \<open>the refresh button's \<open>onClick\<close> runs\<close>
  | Change string            \<comment> \<open>\<open>onChange\<close> of the input\<close>
  | Submit                   \<comment> \<open>the form's \<open>onSubmit\<close> runs\<close>
  | Settle fetch_result nat  \<comment> \<open>the oldest request settles; the clock reading\<close>

definition fetchData :: "system \<Rightarrow> system" where
  "fetchData sys =
     sys\<lparr>ui := fetchData_begin (ui sys), pending := pending sys @ [searchTerm (ui sys)]\<rparr>"

definition mounted :: system where
  \<comment> \<open>after the first render and its effect \<open>useEffect(() => { fetchData(); }, [])\<close>\<close>
  "mounted = fetchData \<lparr>ui = initial_state, pending = []\<rparr>"

fun step :: "(string \<Rightarrow> parse_outcome) \<Rightarrow> event \<Rightarrow> system \<Rightarrow> system" where
  "step parse Refresh sys = fetchData sys"
| "step parse (Change v) sys = sys\<lparr>ui := (ui sys)\<lparr>searchTerm := v\<rparr>\<rparr>"
| "step parse Submit sys = sys\<lparr>ui := handleSearch (ui sys)\<rparr>"
| "step parse (Settle fr now) sys =
     (case pending sys of
        [] \<Rightarrow> sys
      | term0 # rest \<Rightarrow>
          sys\<lparr>ui := fetchData_resume parse now term0 fr (ui sys), pending := rest\<rparr>)"

definition run :: "(string \<Rightarrow> parse_outcome) \<Rightarrow> event list \<Rightarrow> system \<Rightarrow> system" where
  "run parse evs sys = fold (step parse) evs sys"

text \<open>
  What can be observed of a run: an event is a user event when the page raises it, and it
  replaces the dataset when it reaches \<open>setData(results.data)\<close>.
\<close>

fun is_user :: "event \<Rightarrow> bool" where
  "is_user (Settle fr now) = False"
| "is_user ev = True"

fun replaces :: "(string \<Rightarrow> parse_outcome) \<Rightarrow> event \<Rightarrow> system \<Rightarrow> bool" where
  "replaces parse (Settle (Response ok status statusText csv) now) sys =
     (pending sys \<noteq> [] \<and> ok \<and>
      (case parse csv of Complete results \<Rightarrow> True | ParseError message \<Rightarrow> False))"
| "replaces parse ev sys = False"

fun replacements :: "(string \<Rightarrow> parse_outcome) \<Rightarrow> event list \<Rightarrow> system \<Rightarrow> nat" where
  "replacements parse [] sys = 0"
| "replacements parse (ev # evs) sys =
     (if replaces parse ev sys then 1 else 0) + replacements parse evs (step parse ev sys)"

section \<open>Parsers\<close>

text \<open>
  In examples a table from texts to outcomes stands in for the parsing collaborator.
\<close>

definition parser_table :: "(string \<times> Transaction list) list \<Rightarrow> string \<Rightarrow> parse_outcome" where
  "parser_table tbl csv =
     (case map_of tbl csv of
        Some results \<Rightarrow> Complete results
      | None \<Rightarrow> ParseError ''unexpected text'')"

text \<open>
  Modelled from the spec: the parser. The source hands the text to \<open>Papa.parse\<close> of the
  papaparse package with \<open>header: true\<close>, \<open>delimiter: ';'\<close> and \<open>skipEmptyLines: true\<close>;
  the package is not part of the source files. The definitions follow the parser contract
  of the specification: the first line holds the field names, every further line is a
  data row, empty lines are skipped, LF and CRLF both end a line, cells beyond the header
  are dropped and missing cells are the empty string. Where a field name is repeated the
  later cell is kept, as a property assignment would.
\<close>

fun splitOn :: "char \<Rightarrow> string \<Rightarrow> string list" where
  "splitOn d [] = [[]]"
| "splitOn d (c # cs) =
     (if c = d then [] # splitOn d cs
      else (case splitOn d cs of [] \<Rightarrow> [[c]] | w # ws \<Rightarrow> (c # w) # ws))"

definition stripCR :: "string \<Rightarrow> string" where
  "stripCR l = (if l \<noteq> [] \<and> last l = CHR 0x0D then butlast l else l)"

definition csvLines :: "string \<Rightarrow> string list" where
  "csvLines text = filter (\<lambda>l. l \<noteq> []) (map stripCR (splitOn (CHR 0x0A) text))"

definition padCells :: "nat \<Rightarrow> string list \<Rightarrow> string list" where
  "padCells n cells = take n cells @ replicate (n - length cells) []"

definition toRecord :: "string list \<Rightarrow> string list \<Rightarrow> Transaction" where
  "toRecord hdr cells = map_of (rev (zip hdr (padCells (length hdr) cells)))"

definition parse_csv :: "string \<Rightarrow> parse_outcome" where
  "parse_csv text =
     (case csvLines text of
        [] \<Rightarrow> Complete []
      | header # rows \<Rightarrow>
          Complete (map (\<lambda>row. toRecord (splitOn (CHR '';'') header) (splitOn (CHR '';'') row)) rows))"

text \<open>
  Modelled from the spec: the serializer of the round-trip property. The source has none;
  this one writes the header row and one row per record, cells joined by \<open>;\<close> and lines
  by LF, an absent field as the empty cell.
\<close>

fun joinWith :: "char \<Rightarrow> string list \<Rightarrow> string" where
  "joinWith d [] = []"
| "joinWith d [x] = x"
| "joinWith d (x # y # ys) = x @ d # joinWith d (y # ys)"

definition rowCells :: "string list \<Rightarrow> Transaction \<Rightarrow> string list" where
  "rowCells hdr r = map (\<lambda>f. case r f of None \<Rightarrow> [] | Some v \<Rightarrow> v) hdr"

definition serialize :: "string list \<Rightarrow> Transaction list \<Rightarrow> string" where
  "serialize hdr records =
     joinWith (CHR 0x0A)
       (joinWith (CHR '';'') hdr # map (\<lambda>r. joinWith (CHR '';'') (rowCells hdr r)) records)"

definition plain :: "string \<Rightarrow> bool" where
  \<comment> \<open>no cell delimiter and no line delimiter\<close>
  "plain s = (CHR '';'' \<notin> set s \<and> CHR 0x0A \<notin> set s \<and> CHR 0x0D \<notin> set s)"

section \<open>Example data\<close>

definition ana :: Transaction where
  "ana = [''Nome Comprador'' \<mapsto> ''Ana'', ''E-mail Comprador'' \<mapsto> ''ana@x.com'']"

definition bia :: Transaction where
  "bia = [''Nome Comprador'' \<mapsto> ''Bia'', ''E-mail Comprador'' \<mapsto> ''bia@x.com'']"

definition two_loads :: "string \<Rightarrow> parse_outcome" where
  \<comment> \<open>the first text holds Ana and Bia, the second only Bia\<close>
  "two_loads = parser_table [(''v1'', [ana, bia]), (''v2'', [bia])]"

definition idle_with_error :: system where
  \<comment> \<open>the page after the first load failed with status 500\<close>
  "idle_with_error =
     step two_loads (Settle (Response False 500 ''Internal Server Error'' []) 1) mounted"

definition edited_in_flight :: system where
  \<comment> \<open>load; search for ana; clear the input; refresh; type ana again while the request
      is out; the request brings the second text\<close>
  "edited_in_flight =
     run two_loads
       [Settle (Response True 200 ''OK'' ''v1'') 1, Change ''ana@x.com'', Submit, Change [],
        Refresh, Change ''ana@x.com'', Settle (Response True 200 ''OK'' ''v2'') 2]
       mounted"




section \<open>Properties of the strings\<close>

lemma startsWith_prefix: "startsWith s t \<longleftrightarrow> prefix t s"
  by (induction s t rule: startsWith.induct) auto

lemma includes_str_sublist: "includes_str s t \<longleftrightarrow> sublist t s"
  by (induction s) (auto simp: startsWith_prefix sublist_Cons_right)

lemma isSpace_toLowerChar: "isSpace (toLowerChar c) = isSpace c"
  unfolding isSpace_def toLowerChar_def Let_def by auto

lemma dropWhile_toLowerCase:
  "dropWhile isSpace (toLowerCase s) = toLowerCase (dropWhile isSpace s)"
  by (induction s) (auto simp: toLowerCase_def isSpace_toLowerChar)

lemma rev_toLowerCase: "rev (toLowerCase s) = toLowerCase (rev s)"
  by (simp add: toLowerCase_def rev_map)

lemma trim_toLowerCase: "trim (toLowerCase s) = toLowerCase (trim s)"
  by (simp add: trim_def dropWhile_toLowerCase rev_toLowerCase)

lemma toLowerCase_Nil_iff: "toLowerCase s = [] \<longleftrightarrow> s = []"
  by (simp add: toLowerCase_def)

lemma normalized_empty_iff: "trim (toLowerCase s) = [] \<longleftrightarrow> trim s = []"
  by (simp add: trim_toLowerCase toLowerCase_Nil_iff)

section \<open>Properties of the search\<close>

lemma search_filter:
  "search rows raw = filter (\<lambda>item. emailMatches item (toLowerCase (trim raw))) rows"
  by (simp add: search_def trim_toLowerCase)

lemma emailMatches_iff:
  "emailMatches item t \<longleftrightarrow>
     (\<exists>v. item ''E-mail Comprador'' = Some v \<and> sublist t (toLowerCase v))"
  by (auto simp: emailMatches_def includes_str_sublist split: option.splits)

lemma emailMatches_absent_or_empty:
  assumes "item ''E-mail Comprador'' = None \<or> item ''E-mail Comprador'' = Some []"
    and "t \<noteq> []"
  shows "\<not> emailMatches item t"
  using assms by (auto simp: emailMatches_iff toLowerCase_def)

lemma scenario_search:
  "map (\<lambda>r. r ''Nome Comprador'') (search [ana, bia] ''ANA@X.COM'') = [Some ''Ana'']"
  by code_simp

text \<open>
  C2. The search returns exactly the records whose "E-mail Comprador", lower-cased,
  contains the trimmed and lower-cased term as a contiguous substring; a record whose
  field is absent or empty never matches a non-empty term; and for the rows Ana and Bia
  the search for "ANA@X.COM" returns one record, whose "Nome Comprador" is "Ana".
\<close>

theorem search_exact:
  "search rows raw =
     filter (\<lambda>r. \<exists>v ps ss. r ''E-mail Comprador'' = Some v \<and>
                   toLowerCase v = ps @ toLowerCase (trim raw) @ ss) rows
   \<and> (\<forall>r \<in> set rows.
         (r ''E-mail Comprador'' = None \<or> r ''E-mail Comprador'' = Some [])
         \<and> toLowerCase (trim raw) \<noteq> [] \<longrightarrow> r \<notin> set (search rows raw))
   \<and> map (\<lambda>r. r ''Nome Comprador'') (search [ana, bia] ''ANA@X.COM'') = [Some ''Ana'']"
proof (intro conjI)
  show "search rows raw =
     filter (\<lambda>r. \<exists>v ps ss. r ''E-mail Comprador'' = Some v \<and>
                   toLowerCase v = ps @ toLowerCase (trim raw) @ ss) rows"
    unfolding search_filter by (rule filter_cong) (auto simp: emailMatches_iff sublist_def)
  show "\<forall>r \<in> set rows.
         (r ''E-mail Comprador'' = None \<or> r ''E-mail Comprador'' = Some [])
         \<and> toLowerCase (trim raw) \<noteq> [] \<longrightarrow> r \<notin> set (search rows raw)"
    using emailMatches_absent_or_empty by (auto simp: search_filter)
  show "map (\<lambda>r. r ''Nome Comprador'') (search [ana, bia] ''ANA@X.COM'') = [Some ''Ana'']"
    by (rule scenario_search)
qed

theorem search_exact_witness:
  "(Map.empty :: Transaction) ''E-mail Comprador'' = None
   \<and> toLowerCase (trim '' x '') \<noteq> []
   \<and> Map.empty \<notin> set (search [Map.empty] '' x '')"
proof -
  have h1: "(Map.empty :: Transaction) ''E-mail Comprador'' = None" by simp
  have h2: "toLowerCase (trim '' x '') \<noteq> []" by code_simp
  have "\<forall>r \<in> set [Map.empty :: Transaction].
          (r ''E-mail Comprador'' = None \<or> r ''E-mail Comprador'' = Some [])
          \<and> toLowerCase (trim '' x '') \<noteq> [] \<longrightarrow> r \<notin> set (search [Map.empty] '' x '')"
    using search_exact [of "[Map.empty]" "'' x ''"] by blast
  with h1 h2 show ?thesis by simp
qed



text \<open>
  C9. The match decision reads only "E-mail Comprador": two records that agree on it are
  both matched or both not, and both in the result of a search or both not.
\<close>

theorem search_depends_on_email_only:
  "r1 ''E-mail Comprador'' = r2 ''E-mail Comprador'' \<longrightarrow>
     emailMatches r1 t = emailMatches r2 t
     \<and> (r1 \<in> set rows \<and> r2 \<in> set rows \<longrightarrow>
          (r1 \<in> set (search rows raw) \<longleftrightarrow> r2 \<in> set (search rows raw)))"
  by (auto simp: emailMatches_def search_def)

theorem search_depends_on_email_only_witness:
  "ana ''E-mail Comprador'' = (ana(''Nome Comprador'' \<mapsto> ''Zed'')) ''E-mail Comprador''
   \<and> ana(''Nome Comprador'' \<mapsto> ''Zed'') \<noteq> ana
   \<and> (ana \<in> set (search [ana, ana(''Nome Comprador'' \<mapsto> ''Zed'')] ''x.com'') \<longleftrightarrow>
      ana(''Nome Comprador'' \<mapsto> ''Zed'') \<in> set (search [ana, ana(''Nome Comprador'' \<mapsto> ''Zed'')] ''x.com''))"
proof -
  have e: "ana ''E-mail Comprador'' = (ana(''Nome Comprador'' \<mapsto> ''Zed'')) ''E-mail Comprador''"
    by simp
  have n: "ana(''Nome Comprador'' \<mapsto> ''Zed'') \<noteq> ana"
  proof
    assume "ana(''Nome Comprador'' \<mapsto> ''Zed'') = ana"
    then have "(ana(''Nome Comprador'' \<mapsto> ''Zed'')) ''Nome Comprador'' = ana ''Nome Comprador''"
      by simp
    then show False by (simp add: ana_def)
  qed
  show ?thesis
    using e n search_depends_on_email_only
      [of ana "ana(''Nome Comprador'' \<mapsto> ''Zed'')" "''x.com''"
          "[ana, ana(''Nome Comprador'' \<mapsto> ''Zed'')]" "''x.com''"]
    by simp
qed


section \<open>Properties of a refresh cycle\<close>

lemma fetchData_begin_simps:
  "data (fetchData_begin s) = data s"
  "searchTerm (fetchData_begin s) = searchTerm s"
  "searchResults (fetchData_begin s) = searchResults s"
  "loading (fetchData_begin s) = True"
  "error (fetchData_begin s) = None"
  by (simp_all add: fetchData_begin_def)

lemma fetchData_catch_simps:
  "data (fetchData_catch e s) = data s"
  "searchTerm (fetchData_catch e s) = searchTerm s"
  "searchResults (fetchData_catch e s) = searchResults s"
  "loading (fetchData_catch e s) = False"
  by (simp_all add: fetchData_catch_def)

lemma fetchData_complete_simps:
  "data (fetchData_complete t now rs s) = rs"
  "searchTerm (fetchData_complete t now rs s) = searchTerm s"
  "lastUpdated (fetchData_complete t now rs s) = Some now"
  "loading (fetchData_complete t now rs s) = False"
  "error (fetchData_complete t now rs s) = error s"
  "searchResults (fetchData_complete t now rs s) =
     (if trim t \<noteq> [] then search rs t else searchResults s)"
  by (simp_all add: fetchData_complete_def Let_def)

lemma resume_success:
  assumes "parse csv = Complete rs"
  shows "fetchData_resume parse now t (Response True st stt csv) s = fetchData_complete t now rs s"
  using assms by (simp add: fetchData_resume_def)

lemma resume_loading: "loading (fetchData_resume parse now t fr s) = False"
  by (simp add: fetchData_resume_def fetchData_catch_simps fetchData_complete_simps
      split: fetch_result.splits parse_outcome.splits)

lemma resume_searchResults:
  "searchResults (fetchData_resume parse now t fr s) = searchResults s
   \<or> (trim t \<noteq> [] \<and>
       searchResults (fetchData_resume parse now t fr s)
         = search (data (fetchData_resume parse now t fr s)) t)"
  by (simp add: fetchData_resume_def fetchData_catch_simps fetchData_complete_simps
      split: fetch_result.splits parse_outcome.splits)

lemma handleSearch_results:
  "searchResults (handleSearch s) =
     (if trim (searchTerm s) = [] then searchResults s else search (data s) (searchTerm s))"
  by (simp add: handleSearch_def)

lemma handleSearch_data: "data (handleSearch s) = data s"
  by (simp add: handleSearch_def)

section \<open>Properties of the transition system\<close>

lemma fetchData_simps:
  "pending (fetchData sys) = pending sys @ [searchTerm (ui sys)]"
  "loading (ui (fetchData sys)) = True"
  "error (ui (fetchData sys)) = None"
  "data (ui (fetchData sys)) = data (ui sys)"
  "searchResults (ui (fetchData sys)) = searchResults (ui sys)"
  by (simp_all add: fetchData_def fetchData_begin_simps)

lemma fetchData_twice:
  "pending (fetchData (fetchData sys)) = pending sys @ [searchTerm (ui sys), searchTerm (ui sys)]"
  by (simp add: fetchData_def fetchData_begin_def)

lemma step_user:
  assumes "is_user ev"
  shows "\<exists>ts. pending (step parse ev sys) = pending sys @ ts"
    and "error (ui sys) = None \<Longrightarrow> error (ui (step parse ev sys)) = None"
    and "data (ui (step parse ev sys)) = data (ui sys)"
  using assms by (cases ev; simp add: fetchData_simps handleSearch_def)+

lemma run_user:
  assumes "\<forall>ev \<in> set evs. is_user ev"
  shows "(\<exists>ts. pending (run parse evs sys) = pending sys @ ts)
         \<and> (error (ui sys) = None \<longrightarrow> error (ui (run parse evs sys)) = None)
         \<and> data (ui (run parse evs sys)) = data (ui sys)"
  using assms
proof (induction evs arbitrary: sys)
  case Nil
  then show ?case by (simp add: run_def)
next
  case (Cons ev evs)
  have u: "is_user ev" and us: "\<forall>e \<in> set evs. is_user e" using Cons.prems by simp_all
  note st = step_user [OF u, where parse = parse and sys = sys]
  note ih = Cons.IH [OF us, where sys = "step parse ev sys"]
  have r: "run parse (ev # evs) sys = run parse evs (step parse ev sys)" by (simp add: run_def)
  from st(1) obtain ts where ts: "pending (step parse ev sys) = pending sys @ ts" ..
  from ih obtain ts' where
    ts': "pending (run parse evs (step parse ev sys)) = pending (step parse ev sys) @ ts'"
    by blast
  have p: "\<exists>ts. pending (run parse (ev # evs) sys) = pending sys @ ts"
    unfolding r ts' ts by simp
  have e: "error (ui sys) = None \<longrightarrow> error (ui (run parse (ev # evs) sys)) = None"
    unfolding r using st(2) ih by blast
  have d: "data (ui (run parse (ev # evs) sys)) = data (ui sys)"
    unfolding r using st(3) ih by simp
  from p e d show ?case by blast
qed

lemma replaces_imp_pending: "replaces parse ev sys \<Longrightarrow> pending sys \<noteq> []"
  by (induction parse ev sys rule: replaces.induct) simp_all

lemma data_kept_unless_replaces:
  assumes "\<not> replaces parse ev sys"
  shows "data (ui (step parse ev sys)) = data (ui sys)"
proof (cases ev)
  case (Settle fr now)
  then show ?thesis using assms
    by (cases fr; cases "pending sys")
       (auto simp: fetchData_resume_def fetchData_catch_simps split: parse_outcome.splits)
qed (simp_all add: fetchData_simps handleSearch_data)

lemma pending_step:
  assumes "ev \<noteq> Refresh"
  shows "(if replaces parse ev sys then 1 else 0) + length (pending (step parse ev sys))
         \<le> length (pending sys)"
proof (cases ev)
  case (Settle fr now)
  show ?thesis
  proof (cases "pending sys")
    case Nil
    then have "\<not> replaces parse ev sys" using replaces_imp_pending by blast
    with Nil Settle show ?thesis by simp
  next
    case (Cons t0 rest)
    with Settle show ?thesis by simp
  qed
qed (use assms in simp_all)

lemma replacements_le_pending:
  assumes "Refresh \<notin> set evs"
  shows "replacements parse evs sys \<le> length (pending sys)"
  using assms
proof (induction evs arbitrary: sys)
  case Nil
  then show ?case by simp
next
  case (Cons ev evs)
  then have ne: "ev \<noteq> Refresh" and rest: "Refresh \<notin> set evs" by auto
  have ih: "replacements parse evs (step parse ev sys) \<le> length (pending (step parse ev sys))"
    by (rule Cons.IH [OF rest])
  have "replacements parse (ev # evs) sys
        = (if replaces parse ev sys then 1 else 0) + replacements parse evs (step parse ev sys)"
    by simp
  also have "\<dots> \<le> (if replaces parse ev sys then 1 else 0) + length (pending (step parse ev sys))"
    using ih by simp
  also have "\<dots> \<le> length (pending sys)" by (rule pending_step [OF ne])
  finally show ?case .
qed


text \<open>
  C4. A refresh cycle that fails, by a non-success status or by a parse error, leaves
  the dataset as it was, and a search for any term after it gives the result the same
  search gave before it.
\<close>

theorem failed_refresh_keeps_dataset:
  assumes "fr = Response False st stt csv
           \<or> (fr = Response True st stt csv \<and> parse csv = ParseError msg)"
  shows "data (fetchData_resume parse now t0 fr (fetchData_begin s)) = data s
         \<and> (\<forall>t. search (data (fetchData_resume parse now t0 fr (fetchData_begin s))) t
                  = search (data s) t)
         \<and> (\<forall>t. searchResults
                    (handleSearch ((fetchData_resume parse now t0 fr (fetchData_begin s))
                                     \<lparr>searchTerm := t\<rparr>))
                  = searchResults (handleSearch (s\<lparr>searchTerm := t\<rparr>)))"
proof -
  let ?s' = "fetchData_resume parse now t0 fr (fetchData_begin s)"
  have d: "data ?s' = data s"
    using assms by (auto simp: fetchData_resume_def fetchData_catch_simps fetchData_begin_simps)
  have r: "searchResults ?s' = searchResults s"
    using assms by (auto simp: fetchData_resume_def fetchData_catch_simps fetchData_begin_simps)
  show ?thesis using d r by (simp add: handleSearch_results)
qed

theorem failed_refresh_keeps_dataset_witness:
  "two_loads ''v3'' = ParseError ''unexpected text''
   \<and> data (fetchData_resume two_loads 7 ''ana@x.com''
             (Response False 500 ''Internal Server Error'' [])
             (fetchData_begin (initial_state\<lparr>data := [ana]\<rparr>)))
       = data (initial_state\<lparr>data := [ana]\<rparr>)
   \<and> data (fetchData_resume two_loads 7 ''ana@x.com''
             (Response True 200 ''OK'' ''v3'')
             (fetchData_begin (initial_state\<lparr>data := [ana]\<rparr>)))
       = data (initial_state\<lparr>data := [ana]\<rparr>)"
proof -
  have p: "two_loads ''v3'' = ParseError ''unexpected text''"
    by (simp add: two_loads_def parser_table_def)
  show ?thesis
    using failed_refresh_keeps_dataset
            [where fr = "Response False 500 ''Internal Server Error'' []" and st = 500
               and stt = "''Internal Server Error''" and csv = "[]" and parse = two_loads
               and now = 7 and ?t0.0 = "''ana@x.com''" and s = "initial_state\<lparr>data := [ana]\<rparr>"]
          failed_refresh_keeps_dataset
            [where fr = "Response True 200 ''OK'' ''v3''" and st = 200 and stt = "''OK''"
               and csv = "''v3''" and parse = two_loads and msg = "''unexpected text''"
               and now = 7 and ?t0.0 = "''ana@x.com''" and s = "initial_state\<lparr>data := [ana]\<rparr>"]
          p
    by simp
qed

lemma settle_after_refresh:
  assumes idle: "pending sys = []"
    and users: "\<forall>ev \<in> set evs. is_user ev"
  shows "\<exists>ts. step parse (Settle fr now) (run parse evs (step parse Refresh sys))
         = (run parse evs (step parse Refresh sys))
             \<lparr>ui := fetchData_resume parse now (searchTerm (ui sys)) fr
                      (ui (run parse evs (step parse Refresh sys))),
              pending := ts\<rparr>"
proof -
  let ?s1 = "step parse Refresh sys"
  have p1: "pending ?s1 = [searchTerm (ui sys)]" using idle by (simp add: fetchData_simps)
  from run_user [OF users, where parse = parse and sys = ?s1] obtain ts
    where "pending (run parse evs ?s1) = pending ?s1 @ ts" by blast
  with p1 have "pending (run parse evs ?s1) = searchTerm (ui sys) # ts" by simp
  then have "step parse (Settle fr now) (run parse evs ?s1)
         = (run parse evs ?s1)
             \<lparr>ui := fetchData_resume parse now (searchTerm (ui sys)) fr (ui (run parse evs ?s1)),
              pending := ts\<rparr>"
    by simp
  then show ?thesis ..
qed

text \<open>
  What a successful refresh does. When a refresh is invoked while no cycle waits and
  loading is false, the user then only types, submits or clicks, and the request succeeds and
  parses, the dataset becomes the parsed records, the timestamp becomes the clock
  reading, and if the search term that was in the input when the refresh was invoked has
  non-empty trimmed content, the displayed result becomes the search of the new dataset
  for that term. The term in the input when the request settles plays no part.
\<close>

lemma refresh_with_captured_term:
  assumes "\<not> loading (ui sys)" and "pending sys = []"
    and "\<forall>ev \<in> set evs. is_user ev"
    and "parse csv = Complete results"
  shows "data (ui (step parse (Settle (Response True st stt csv) now)
                     (run parse evs (step parse Refresh sys)))) = results
       \<and> lastUpdated (ui (step parse (Settle (Response True st stt csv) now)
                            (run parse evs (step parse Refresh sys)))) = Some now
       \<and> (trim (searchTerm (ui sys)) \<noteq> [] \<longrightarrow>
            searchResults (ui (step parse (Settle (Response True st stt csv) now)
                                 (run parse evs (step parse Refresh sys))))
              = search results (searchTerm (ui sys)))"
proof -
  from settle_after_refresh
         [OF assms(2,3), where parse = parse and fr = "Response True st stt csv" and now = now]
  obtain ts where
    "step parse (Settle (Response True st stt csv) now) (run parse evs (step parse Refresh sys))
     = (run parse evs (step parse Refresh sys))
         \<lparr>ui := fetchData_resume parse now (searchTerm (ui sys)) (Response True st stt csv)
                  (ui (run parse evs (step parse Refresh sys))),
          pending := ts\<rparr>" ..
  then show ?thesis
    unfolding resume_success [where parse = parse and csv = csv, OF assms(4)]
    by (simp add: fetchData_complete_simps)
qed

lemma refresh_with_captured_term_example:
  "\<not> loading (ui (step two_loads (Change ''ana@x.com'') idle_with_error))
   \<and> pending (step two_loads (Change ''ana@x.com'') idle_with_error) = []
   \<and> is_user (Change ''bia@x.com'') \<and> is_user Submit \<and> is_user Refresh
   \<and> two_loads ''v1'' = Complete [ana, bia]
   \<and> trim (searchTerm (ui (step two_loads (Change ''ana@x.com'') idle_with_error))) \<noteq> []
   \<and> searchResults
        (ui (step two_loads (Settle (Response True 200 ''OK'' ''v1'') 2)
               (run two_loads [Change ''bia@x.com'', Submit, Refresh]
                  (step two_loads Refresh (step two_loads (Change ''ana@x.com'') idle_with_error)))))
       = search [ana, bia] ''ana@x.com''"
proof -
  let ?s = "step two_loads (Change ''ana@x.com'') idle_with_error"
  have a: "\<not> loading (ui idle_with_error)" "pending idle_with_error = []" by code_simp+
  have a': "\<not> loading (ui ?s)" "pending ?s = []" using a by simp_all
  have u: "\<forall>ev \<in> set [Change ''bia@x.com'', Submit, Refresh]. is_user ev" by simp
  have p: "two_loads ''v1'' = Complete [ana, bia]"
    by (simp add: two_loads_def parser_table_def)
  have t: "searchTerm (ui ?s) = ''ana@x.com''" by simp
  have n: "trim (searchTerm (ui ?s)) \<noteq> []" unfolding t by code_simp
  note r = refresh_with_captured_term
             [where parse = two_loads and csv = "''v1''" and st = 200 and stt = "''OK''"
                and now = 2, OF a' u p]
  from r n have
    "searchResults
        (ui (step two_loads (Settle (Response True 200 ''OK'' ''v1'') 2)
               (run two_loads [Change ''bia@x.com'', Submit, Refresh] (step two_loads Refresh ?s))))
       = search [ana, bia] (searchTerm (ui ?s))"
    by blast
  then have
    "searchResults
        (ui (step two_loads (Settle (Response True 200 ''OK'' ''v1'') 2)
               (run two_loads [Change ''bia@x.com'', Submit, Refresh] (step two_loads Refresh ?s))))
       = search [ana, bia] ''ana@x.com''"
    unfolding t .
  with a' p n show ?thesis by simp
qed

text \<open>
  C5. On a successful refresh the dataset is replaced, the timestamp is updated, and the
  search is to be re-run when a search term is active. In the run below the user loads
  the first text, searches for ana@x.com, clears the input, refreshes, and types
  ana@x.com again while the request is out; the request then succeeds with the second
  text. The dataset is replaced and the timestamp updated; the term ana@x.com is in the
  input and is the last term searched for; the new dataset holds no match for it; and
  the displayed result still holds the one record matched in the old dataset, because
  the term the callback reads is the empty one of the render in which the refresh was
  invoked.
\<close>

theorem refresh_misses_term_typed_in_flight:
  "loading (ui edited_in_flight) = False
   \<and> pending edited_in_flight = []
   \<and> lastUpdated (ui edited_in_flight) = Some 2
   \<and> length (data (ui edited_in_flight)) = 1
   \<and> searchTerm (ui edited_in_flight) = ''ana@x.com''
   \<and> trim (searchTerm (ui edited_in_flight)) = ''ana@x.com''
   \<and> hasSearched (ui edited_in_flight) = True
   \<and> length (search (data (ui edited_in_flight)) (searchTerm (ui edited_in_flight))) = 0
   \<and> length (searchResults (ui edited_in_flight)) = 1"
  by code_simp

text \<open>
  What the two guards give. A submission whose term normalises to the empty string
  returns without filtering and leaves the state as it is; a refresh cycle whose own
  term (the one its closure holds, which it both tests and searches for) normalises to
  the empty string leaves the displayed result as it is; and whenever an event changes
  the displayed result, the new result is the search of the current dataset for a term
  whose normalised form is not empty.
\<close>

lemma guards_on_empty_term:
  "(trim (toLowerCase (searchTerm s)) = [] \<longrightarrow> handleSearch s = s)
   \<and> (trim (toLowerCase t0) = [] \<longrightarrow>
        searchResults (fetchData_resume parse now t0 fr s) = searchResults s)
   \<and> (searchResults (ui (step parse ev sys)) = searchResults (ui sys)
      \<or> (\<exists>t \<in> set (searchTerm (ui sys) # pending sys).
            trim (toLowerCase t) \<noteq> []
            \<and> searchResults (ui (step parse ev sys)) = search (data (ui (step parse ev sys))) t))"
proof (intro conjI impI)
  assume "trim (toLowerCase (searchTerm s)) = []"
  then show "handleSearch s = s" by (simp add: handleSearch_def normalized_empty_iff)
next
  assume "trim (toLowerCase t0) = []"
  then have "trim t0 = []" by (simp add: normalized_empty_iff)
  with resume_searchResults [of parse now t0 fr s]
  show "searchResults (fetchData_resume parse now t0 fr s) = searchResults s" by simp
next
  show "searchResults (ui (step parse ev sys)) = searchResults (ui sys)
      \<or> (\<exists>t \<in> set (searchTerm (ui sys) # pending sys).
            trim (toLowerCase t) \<noteq> []
            \<and> searchResults (ui (step parse ev sys)) = search (data (ui (step parse ev sys))) t)"
  proof (cases ev)
    case Refresh
    then show ?thesis by (simp add: fetchData_simps)
  next
    case (Change v)
    then show ?thesis by simp
  next
    case Submit
    then show ?thesis
      by (simp add: handleSearch_results handleSearch_data normalized_empty_iff)
  next
    case (Settle fr' now')
    show ?thesis
    proof (cases "pending sys")
      case Nil
      with Settle show ?thesis by simp
    next
      case (Cons t1 rest)
      with Settle resume_searchResults [of parse now' t1 fr' "ui sys"]
      show ?thesis by (auto simp: normalized_empty_iff)
    qed
  qed
qed

lemma guards_on_empty_term_example:
  "trim (toLowerCase (searchTerm (initial_state\<lparr>searchTerm := ''  '', searchResults := [bia]\<rparr>))) = []
   \<and> handleSearch (initial_state\<lparr>searchTerm := ''  '', searchResults := [bia]\<rparr>)
       = initial_state\<lparr>searchTerm := ''  '', searchResults := [bia]\<rparr>
   \<and> trim (toLowerCase '' '') = []
   \<and> searchResults (fetchData_resume two_loads 2 '' '' (Response True 200 ''OK'' ''v1'')
                      (initial_state\<lparr>searchTerm := ''  '', searchResults := [bia]\<rparr>)) = [bia]"
proof -
  have e1: "trim (toLowerCase (searchTerm (initial_state\<lparr>searchTerm := ''  '', searchResults := [bia]\<rparr>))) = []"
    by code_simp
  have e2: "trim (toLowerCase '' '') = []" by code_simp
  show ?thesis
    using e1 e2
      guards_on_empty_term
        [where s = "initial_state\<lparr>searchTerm := ''  '', searchResults := [bia]\<rparr>"
           and ?t0.0 = "'' ''" and parse = two_loads and now = 2
           and fr = "Response True 200 ''OK'' ''v1''"]
    by simp
qed


text \<open>
  C10. Invoking a refresh sets the error to null; while the request is out and the user
  types, submits or clicks, it stays null; and when the request then succeeds and
  parses, it is still null.
\<close>

theorem refresh_clears_error:
  "error (ui (fetchData sys)) = None
   \<and> (\<not> loading (ui sys) \<and> (\<forall>ev \<in> set evs. is_user ev) \<longrightarrow>
        error (ui (run parse evs (step parse Refresh sys))) = None)
   \<and> (\<not> loading (ui sys) \<and> (\<forall>ev \<in> set evs. is_user ev) \<and> parse csv = Complete results \<longrightarrow>
        error (ui (step parse (Settle (Response True st stt csv) now)
                     (run parse evs (step parse Refresh sys)))) = None)"
proof (intro conjI impI)
  show "error (ui (fetchData sys)) = None" by (simp add: fetchData_simps)
next
  assume a: "\<not> loading (ui sys) \<and> (\<forall>ev \<in> set evs. is_user ev)"
  let ?s1 = "step parse Refresh sys"
  have e1: "error (ui ?s1) = None" by (simp add: fetchData_simps)
  from a have u: "\<forall>ev \<in> set evs. is_user ev" by simp
  show "error (ui (run parse evs ?s1)) = None"
    using run_user [OF u, where parse = parse and sys = ?s1] e1 by blast
next
  assume a: "\<not> loading (ui sys) \<and> (\<forall>ev \<in> set evs. is_user ev) \<and> parse csv = Complete results"
  let ?s1 = "step parse Refresh sys"
  let ?s2 = "run parse evs ?s1"
  have e1: "error (ui ?s1) = None" by (simp add: fetchData_simps)
  from a have u: "\<forall>ev \<in> set evs. is_user ev" by simp
  have e2: "error (ui ?s2) = None"
    using run_user [OF u, where parse = parse and sys = ?s1] e1 by blast
  from a have p: "parse csv = Complete results" by simp
  show "error (ui (step parse (Settle (Response True st stt csv) now) ?s2)) = None"
    using e2 by (cases "pending ?s2")
      (simp_all add: resume_success [where parse = parse and csv = csv, OF p]
          fetchData_complete_simps)
qed

theorem refresh_clears_error_witness:
  "error (ui idle_with_error) \<noteq> None
   \<and> \<not> loading (ui idle_with_error)
   \<and> is_user (Change ''ana@x.com'') \<and> is_user Refresh
   \<and> two_loads ''v1'' = Complete [ana, bia]
   \<and> error (ui (run two_loads [Change ''ana@x.com'', Refresh] (step two_loads Refresh idle_with_error)))
       = None
   \<and> error (ui (step two_loads (Settle (Response True 200 ''OK'' ''v1'') 2)
                  (run two_loads [Change ''ana@x.com'', Refresh]
                     (step two_loads Refresh idle_with_error)))) = None"
proof -
  have a: "error (ui idle_with_error) \<noteq> None" "\<not> loading (ui idle_with_error)" by code_simp+
  have u: "\<forall>ev \<in> set [Change ''ana@x.com'', Refresh]. is_user ev" by simp
  have p: "two_loads ''v1'' = Complete [ana, bia]"
    by (simp add: two_loads_def parser_table_def)
  show ?thesis
    using a u p
      refresh_clears_error [of idle_with_error "[Change ''ana@x.com'', Refresh]" two_loads "''v1''"
                               "[ana, bia]" 200 "''OK''" 2]
    by (simp del: step.simps)
qed


section \<open>Properties of the parser\<close>

lemma splitOn_not_Nil: "splitOn d s \<noteq> []"
  by (induction s) (auto split: list.splits)

lemma splitOn_plain: "d \<notin> set s \<Longrightarrow> splitOn d s = [s]"
  by (induction s) auto

lemma splitOn_append:
  "d \<notin> set x \<Longrightarrow> splitOn d (x @ d # rest) = x # splitOn d rest"
  by (induction x) auto

lemma splitOn_joinWith:
  assumes "xs \<noteq> []" and "\<forall>x \<in> set xs. d \<notin> set x"
  shows "splitOn d (joinWith d xs) = xs"
  using assms
proof (induction d xs rule: joinWith.induct)
  case (1 d)
  then show ?case by simp
next
  case (2 d x)
  then show ?case by (simp add: splitOn_plain)
next
  case (3 d x y ys)
  then show ?case by (simp add: splitOn_append)
qed

lemma set_joinWith: "set (joinWith d xs) \<subseteq> insert d (\<Union> (set ` set xs))"
  by (induction d xs rule: joinWith.induct) auto

lemma joinWith_Nil_iff: "joinWith d xs = [] \<longleftrightarrow> xs = [] \<or> xs = [[]]"
  by (induction d xs rule: joinWith.induct) auto

lemma stripCR_plain: "CHR 0x0D \<notin> set l \<Longrightarrow> stripCR l = l"
  by (cases l rule: rev_cases) (auto simp: stripCR_def)

lemma length_padCells: "length (padCells n cells) = n"
  by (simp add: padCells_def)

lemma padCells_same: "length cells = n \<Longrightarrow> padCells n cells = cells"
  by (simp add: padCells_def)

lemma dom_toRecord: "dom (toRecord hdr cells) = set hdr"
proof -
  have "fst ` set (zip hdr (padCells (length hdr) cells)) = set hdr"
    by (metis length_padCells map_fst_zip set_map)
  then show ?thesis by (simp add: toRecord_def dom_map_of_conv_image_fst)
qed

lemma map_of_rev_graph:
  "map_of (rev (map (\<lambda>x. (x, g x)) xs)) k = (if k \<in> set xs then Some (g k) else None)"
  by (induction xs) (auto simp: map_add_def split: option.splits)

lemma map_of_rev_const:
  "k \<in> set xs \<Longrightarrow> map_of (rev (map (\<lambda>x. (x, v)) xs)) k = Some v"
  using map_of_rev_graph [of "\<lambda>x. v" xs k] by simp

lemma zip_replicate_same: "zip xs (replicate (length xs) v) = map (\<lambda>x. (x, v)) xs"
  by (induction xs) auto

lemma toRecord_missing:
  assumes "i < length hdr" and "length cells \<le> i"
  shows "toRecord hdr cells (hdr ! i) = Some []"
proof -
  let ?m = "length cells"
  have m: "?m < length hdr" using assms by simp
  have split: "hdr = take ?m hdr @ drop ?m hdr" by simp
  have pad: "padCells (length hdr) cells = cells @ replicate (length (drop ?m hdr)) []"
    using m by (simp add: padCells_def)
  have "zip hdr (padCells (length hdr) cells)
        = zip (take ?m hdr @ drop ?m hdr) (cells @ replicate (length (drop ?m hdr)) [])"
    using pad by simp
  also have "\<dots> = zip (take ?m hdr) cells @ zip (drop ?m hdr) (replicate (length (drop ?m hdr)) [])"
    using m by (intro zip_append) simp
  also have "\<dots> = zip (take ?m hdr) cells @ map (\<lambda>x. (x, [])) (drop ?m hdr)"
    by (simp only: zip_replicate_same)
  finally have z: "zip hdr (padCells (length hdr) cells)
        = zip (take ?m hdr) cells @ map (\<lambda>x. (x, [])) (drop ?m hdr)" .
  have "hdr ! i = drop ?m hdr ! (i - ?m)" using assms by simp
  moreover have "i - ?m < length (drop ?m hdr)" using assms by simp
  ultimately have k: "hdr ! i \<in> set (drop ?m hdr)" by (metis nth_mem)
  show ?thesis
    unfolding toRecord_def z
    by (simp add: map_of_rev_const [OF k] map_add_def)
qed

lemma toRecord_rowCells:
  assumes "dom r = set hdr"
  shows "toRecord hdr (rowCells hdr r) = r"
proof
  fix k
  let ?g = "\<lambda>f. case r f of None \<Rightarrow> [] | Some v \<Rightarrow> v"
  have "zip hdr (map ?g hdr) = map (\<lambda>f. (f, ?g f)) hdr"
    by (induction hdr) auto
  then have "toRecord hdr (rowCells hdr r) k = (if k \<in> set hdr then Some (?g k) else None)"
    by (simp add: toRecord_def rowCells_def padCells_same map_of_rev_graph)
  also have "\<dots> = r k"
    using assms by (cases "r k") auto
  finally show "toRecord hdr (rowCells hdr r) k = r k" .
qed

lemma parse_csv_total: "\<exists>rs. parse_csv text = Complete rs"
  by (simp add: parse_csv_def split: list.splits)


lemma csvLines_serialize:
  assumes hdr: "hdr \<noteq> []" "hdr \<noteq> [[]]" "\<forall>f \<in> set hdr. plain f"
    and recs: "\<forall>r \<in> set records. (\<forall>f \<in> set hdr. plain (case r f of None \<Rightarrow> [] | Some v \<Rightarrow> v))
                 \<and> rowCells hdr r \<noteq> [[]]"
  shows "csvLines (serialize hdr records)
         = joinWith (CHR '';'') hdr # map (\<lambda>r. joinWith (CHR '';'') (rowCells hdr r)) records"
proof -
  let ?ls = "joinWith (CHR '';'') hdr # map (\<lambda>r. joinWith (CHR '';'') (rowCells hdr r)) records"
  have cells: "\<forall>r \<in> set records. \<forall>c \<in> set (rowCells hdr r). plain c"
    using recs by (auto simp: rowCells_def)
  have sub: "\<And>cs. \<forall>c \<in> set cs. plain c \<Longrightarrow>
               CHR 0x0A \<notin> set (joinWith (CHR '';'') cs) \<and> CHR 0x0D \<notin> set (joinWith (CHR '';'') cs)"
  proof -
    fix cs :: "string list"
    assume p: "\<forall>c \<in> set cs. plain c"
    have "set (joinWith (CHR '';'') cs) \<subseteq> insert (CHR '';'') (\<Union> (set ` set cs))"
      by (rule set_joinWith)
    moreover have "CHR 0x0A \<notin> insert (CHR '';'') (\<Union> (set ` set cs))"
      using p by (auto simp: plain_def)
    moreover have "CHR 0x0D \<notin> insert (CHR '';'') (\<Union> (set ` set cs))"
      using p by (auto simp: plain_def)
    ultimately show "CHR 0x0A \<notin> set (joinWith (CHR '';'') cs) \<and> CHR 0x0D \<notin> set (joinWith (CHR '';'') cs)"
      by blast
  qed
  have noLF: "\<forall>l \<in> set ?ls. CHR 0x0A \<notin> set l"
    using sub hdr(3) cells by auto
  have noCR: "\<forall>l \<in> set ?ls. CHR 0x0D \<notin> set l"
    using sub hdr(3) cells by auto
  have rows_ne: "\<forall>r \<in> set records. rowCells hdr r \<noteq> []"
    using hdr(1) by (simp add: rowCells_def)
  have ne: "\<forall>l \<in> set ?ls. l \<noteq> []"
    using hdr(1,2) recs rows_ne by (auto simp: joinWith_Nil_iff)
  have s1: "splitOn (CHR 0x0A) (serialize hdr records) = ?ls"
    unfolding serialize_def using noLF by (intro splitOn_joinWith) simp_all
  have s2: "map stripCR ?ls = ?ls"
  proof (rule map_idI)
    fix l assume "l \<in> set ?ls"
    with noCR have "CHR 0x0D \<notin> set l" by blast
    then show "stripCR l = l" by (rule stripCR_plain)
  qed
  have s3: "filter (\<lambda>l. l \<noteq> []) ?ls = ?ls"
    using ne by (intro filter_True) simp
  show ?thesis unfolding csvLines_def s1 s2 s3 by (rule refl)
qed

text \<open>
  C3. Every text parses; and where the text has a header line, a data row with fewer
  cells than the header becomes a record that maps every header field without a cell to
  the empty string, and no header field to an absent value.
\<close>

theorem short_row_padded:
  "\<exists>rs. parse_csv text = Complete rs
     \<and> (\<forall>header rows. csvLines text = header # rows \<longrightarrow>
          length rs = length rows
          \<and> (\<forall>k < length rows.
                (\<forall>i < length (splitOn (CHR '';'') header).
                    length (splitOn (CHR '';'') (rows ! k)) \<le> i \<longrightarrow>
                    (rs ! k) (splitOn (CHR '';'') header ! i) = Some [])
                \<and> (\<forall>f \<in> set (splitOn (CHR '';'') header). (rs ! k) f \<noteq> None)))"
proof (cases "csvLines text")
  case Nil
  then show ?thesis by (simp add: parse_csv_def)
next
  case (Cons h rws)
  let ?rs = "map (\<lambda>row. toRecord (splitOn (CHR '';'') h) (splitOn (CHR '';'') row)) rws"
  have p: "parse_csv text = Complete ?rs" using Cons by (simp add: parse_csv_def)
  have d: "\<And>k f. f \<in> set (splitOn (CHR '';'') h) \<Longrightarrow>
             \<exists>y. toRecord (splitOn (CHR '';'') h) (splitOn (CHR '';'') (rws ! k)) f = Some y"
    using dom_toRecord by (metis domD)
  show ?thesis
    unfolding p using Cons by (auto simp: toRecord_missing d)
qed

theorem short_row_padded_witness:
  "csvLines ''a;b;c\<newline>1;2\<newline>'' = [''a;b;c'', ''1;2'']
   \<and> length (splitOn (CHR '';'') ''1;2'') \<le> 2
   \<and> (\<exists>rs. parse_csv ''a;b;c\<newline>1;2\<newline>'' = Complete rs \<and> length rs = 1
            \<and> (rs ! 0) ''c'' = Some [] \<and> (rs ! 0) ''a'' \<noteq> None)"
proof -
  have l: "csvLines ''a;b;c\<newline>1;2\<newline>'' = [''a;b;c'', ''1;2'']" by code_simp
  have h: "splitOn (CHR '';'') ''a;b;c'' = [''a'', ''b'', ''c'']" by code_simp
  have r: "splitOn (CHR '';'') ''1;2'' = [''1'', ''2'']" by code_simp
  obtain rs where rs: "parse_csv ''a;b;c\<newline>1;2\<newline>'' = Complete rs"
    and all: "\<forall>header rows. csvLines ''a;b;c\<newline>1;2\<newline>'' = header # rows \<longrightarrow>
          length rs = length rows
          \<and> (\<forall>k < length rows.
                (\<forall>i < length (splitOn (CHR '';'') header).
                    length (splitOn (CHR '';'') (rows ! k)) \<le> i \<longrightarrow>
                    (rs ! k) (splitOn (CHR '';'') header ! i) = Some [])
                \<and> (\<forall>f \<in> set (splitOn (CHR '';'') header). (rs ! k) f \<noteq> None))"
    using short_row_padded [of "''a;b;c\<newline>1;2\<newline>''"] by blast
  from all l have len: "length rs = 1"
    and row: "(\<forall>i < length (splitOn (CHR '';'') ''a;b;c'').
                    length (splitOn (CHR '';'') ([''1;2''] ! 0)) \<le> i \<longrightarrow>
                    (rs ! 0) (splitOn (CHR '';'') ''a;b;c'' ! i) = Some [])"
    and dom: "\<forall>f \<in> set (splitOn (CHR '';'') ''a;b;c''). (rs ! 0) f \<noteq> None"
    by auto
  from row have "2 < length (splitOn (CHR '';'') ''a;b;c'') \<longrightarrow>
                 length (splitOn (CHR '';'') ([''1;2''] ! 0)) \<le> 2 \<longrightarrow>
                 (rs ! 0) (splitOn (CHR '';'') ''a;b;c'' ! 2) = Some []"
    by blast
  then have c: "(rs ! 0) ''c'' = Some []" unfolding h by (simp add: r)
  from dom have a: "(rs ! 0) ''a'' \<noteq> None" unfolding h by simp
  show ?thesis using l r rs len c a by auto
qed

lemma plain_cell:
  assumes "dom r = set hdr" and "\<forall>v \<in> ran r. plain v" and "f \<in> set hdr"
  shows "plain (case r f of None \<Rightarrow> [] | Some v \<Rightarrow> v)"
proof -
  from assms(1,3) have "f \<in> dom r" by simp
  then have "\<exists>v. r f = Some v" by (rule domD)
  then obtain v where v: "r f = Some v" ..
  then have "v \<in> ran r" by (rule ranI)
  with assms(2) have "plain v" by (rule bspec)
  with v show ?thesis by simp
qed

lemma splitOn_row:
  assumes "hdr \<noteq> []" and "dom r = set hdr" and "\<forall>v \<in> ran r. plain v"
  shows "splitOn (CHR '';'') (joinWith (CHR '';'') (rowCells hdr r)) = rowCells hdr r"
proof (rule splitOn_joinWith)
  show "rowCells hdr r \<noteq> []" using assms(1) by (simp add: rowCells_def)
  show "\<forall>c \<in> set (rowCells hdr r). CHR '';'' \<notin> set c"
  proof
    fix c assume "c \<in> set (rowCells hdr r)"
    then obtain f where f: "f \<in> set hdr" and c: "c = (case r f of None \<Rightarrow> [] | Some v \<Rightarrow> v)"
      unfolding rowCells_def by (auto simp only: set_map)
    from plain_cell [OF assms(2,3) f] c have "plain c" by simp
    then show "CHR '';'' \<notin> set c" by (simp add: plain_def)
  qed
qed

lemma parse_csv_lines:
  assumes "csvLines text = header # rows"
  shows "parse_csv text
         = Complete (map (\<lambda>row. toRecord (splitOn (CHR '';'') header) (splitOn (CHR '';'') row)) rows)"
  unfolding parse_csv_def assms by simp


text \<open>
  C8 as amended. For every list of field names and every sequence of records over exactly
  these fields, where names and values hold no \<open>;\<close>, LF or CR, the header line is not
  empty, and no record is written as an empty line (there are at least two fields, or the
  single value is not empty), parsing the serialized text gives the records back.
\<close>

theorem roundtrip:
  assumes "hdr \<noteq> []" and "hdr \<noteq> [[]]" and "\<forall>f \<in> set hdr. plain f"
    and "\<forall>r \<in> set records. dom r = set hdr \<and> (\<forall>v \<in> ran r. plain v) \<and> rowCells hdr r \<noteq> [[]]"
  shows "parse_csv (serialize hdr records) = Complete records"
proof -
  have each: "dom r = set hdr" "\<forall>v \<in> ran r. plain v" "rowCells hdr r \<noteq> [[]]"
    if "r \<in> set records" for r
    using bspec [OF assms(4) that] by simp_all
  have recs: "\<forall>r \<in> set records. (\<forall>f \<in> set hdr. plain (case r f of None \<Rightarrow> [] | Some v \<Rightarrow> v))
                 \<and> rowCells hdr r \<noteq> [[]]"
  proof (intro ballI conjI)
    fix r f assume r: "r \<in> set records" and f: "f \<in> set hdr"
    show "plain (case r f of None \<Rightarrow> [] | Some v \<Rightarrow> v)"
      by (rule plain_cell [OF each(1,2) [OF r] f])
  next
    fix r assume r: "r \<in> set records"
    show "rowCells hdr r \<noteq> [[]]" by (rule each(3) [OF r])
  qed
  have lines: "csvLines (serialize hdr records)
         = joinWith (CHR '';'') hdr # map (\<lambda>r. joinWith (CHR '';'') (rowCells hdr r)) records"
    by (rule csvLines_serialize [OF assms(1,2,3) recs])
  have "\<forall>f \<in> set hdr. CHR '';'' \<notin> set f" using assms(3) by (simp add: plain_def)
  with assms(1) have h: "splitOn (CHR '';'') (joinWith (CHR '';'') hdr) = hdr"
    by (rule splitOn_joinWith)
  have row: "toRecord hdr (splitOn (CHR '';'') (joinWith (CHR '';'') (rowCells hdr r))) = r"
    if r: "r \<in> set records" for r
    unfolding splitOn_row [OF assms(1) each(1,2) [OF r]]
    by (rule toRecord_rowCells [OF each(1) [OF r]])
  have m: "map (\<lambda>r. toRecord hdr (splitOn (CHR '';'') (joinWith (CHR '';'') (rowCells hdr r)))) records
           = records"
    by (rule map_idI) (rule row)
  show ?thesis
    unfolding parse_csv_lines [OF lines] h map_map comp_def m by (rule refl)
qed

theorem roundtrip_witness:
  "[''Nome Comprador'', ''E-mail Comprador''] \<noteq> []
   \<and> [''Nome Comprador'', ''E-mail Comprador''] \<noteq> [[]]
   \<and> plain ''Nome Comprador'' \<and> plain ''E-mail Comprador''
   \<and> dom ana = set [''Nome Comprador'', ''E-mail Comprador'']
   \<and> plain ''Ana'' \<and> plain ''ana@x.com''
   \<and> rowCells [''Nome Comprador'', ''E-mail Comprador''] ana = [''Ana'', ''ana@x.com'']
   \<and> serialize [''Nome Comprador'', ''E-mail Comprador''] [ana]
       = ''Nome Comprador;E-mail Comprador\<newline>Ana;ana@x.com''
   \<and> parse_csv ''Nome Comprador;E-mail Comprador\<newline>Ana;ana@x.com'' = Complete [ana]"
proof -
  let ?hdr = "[''Nome Comprador'', ''E-mail Comprador'']"
  have p: "plain ''Nome Comprador''" "plain ''E-mail Comprador''" "plain ''Ana''" "plain ''ana@x.com''"
    by (simp_all add: plain_def)
  have d: "dom ana = set ?hdr" by (auto simp: ana_def)
  have r: "\<forall>v \<in> ran ana. plain v"
  proof
    fix v assume "v \<in> ran ana"
    then obtain k where "ana k = Some v" unfolding ran_def by blast
    then have "v = ''Ana'' \<or> v = ''ana@x.com''"
      by (simp add: ana_def split: if_splits)
    with p show "plain v" by blast
  qed
  have c: "rowCells ?hdr ana = [''Ana'', ''ana@x.com'']" by (simp add: rowCells_def ana_def)
  have s: "serialize ?hdr [ana] = ''Nome Comprador;E-mail Comprador\<newline>Ana;ana@x.com''"
    by (simp add: serialize_def c)
  have h1: "?hdr \<noteq> []" and h2: "?hdr \<noteq> [[]]" by simp_all
  have h3: "\<forall>f \<in> set ?hdr. plain f" using p by simp
  have c': "rowCells ?hdr ana \<noteq> [[]]" unfolding c by simp
  have h4: "\<forall>r \<in> set [ana]. dom r = set ?hdr \<and> (\<forall>v \<in> ran r. plain v) \<and> rowCells ?hdr r \<noteq> [[]]"
    using d r c' by simp
  have "parse_csv (serialize ?hdr [ana]) = Complete [ana]"
    by (rule roundtrip [OF h1 h2 h3 h4])
  then have e: "parse_csv ''Nome Comprador;E-mail Comprador\<newline>Ana;ana@x.com'' = Complete [ana]"
    unfolding s .
  show ?thesis by (intro conjI h1 h2 p d c s e)
qed

text \<open>
  C8 as stated fails: a single field whose value is empty is written as an empty line,
  and the parser skips empty lines.
\<close>

theorem roundtrip_counterexample:
  "plain ''a'' \<and> plain []
   \<and> serialize [''a''] [[''a'' \<mapsto> []]] = ''a\<newline>''
   \<and> parse_csv (serialize [''a''] [[''a'' \<mapsto> []]]) = Complete []
   \<and> parse_csv (serialize [''a''] [[''a'' \<mapsto> []]]) \<noteq> Complete [[''a'' \<mapsto> []]]"
proof -
  have s: "serialize [''a''] [[''a'' \<mapsto> []]] = ''a\<newline>''"
    by (simp add: serialize_def rowCells_def)
  have l: "csvLines ''a\<newline>'' = [''a'']" by code_simp
  have p: "parse_csv ''a\<newline>'' = Complete []" by (simp add: parse_csv_def l)
  show ?thesis unfolding s p by (simp add: plain_def)
qed

end
